theory Spec2Isabelle
  imports Complex_Main "HOL-Library.Log_Nat"
begin

section \<open>JavaScript numbers and exceptions\<close>

text \<open>
  The slide index and the slide count are JavaScript numbers. The model keeps the integer
  values and the one non-integer value the code can produce, \<open>NaN\<close> (from \<open>x % 0\<close>).
  Negative zero is identified with zero: the code only multiplies the index, prints it into
  a style string and compares it with \<open>===\<close>, and none of these tells the two apart.
\<close>

datatype jsnum = Num int | NaN

fun js_add :: "jsnum \<Rightarrow> jsnum \<Rightarrow> jsnum" where
  "js_add (Num a) (Num b) = Num (a + b)"
| "js_add _ _ = NaN"

fun js_sub :: "jsnum \<Rightarrow> jsnum \<Rightarrow> jsnum" where
  "js_sub (Num a) (Num b) = Num (a - b)"
| "js_sub _ _ = NaN"

fun js_mul :: "jsnum \<Rightarrow> jsnum \<Rightarrow> jsnum" where
  "js_mul (Num a) (Num b) = Num (a * b)"
| "js_mul _ _ = NaN"

fun js_neg :: "jsnum \<Rightarrow> jsnum" where
  "js_neg (Num a) = Num (- a)"
| "js_neg NaN = NaN"

text \<open>
  The operator \<open>%\<close>: the remainder of the truncating division, with the sign of the
  dividend, and \<open>NaN\<close> for a zero divisor.
\<close>

fun js_rem :: "jsnum \<Rightarrow> jsnum \<Rightarrow> jsnum" where
  "js_rem (Num a) (Num b) = (if b = 0 then NaN else Num (sgn a * (\<bar>a\<bar> mod \<bar>b\<bar>)))"
| "js_rem _ _ = NaN"

text \<open>The operator \<open>===\<close> on numbers: \<open>NaN\<close> equals nothing, not even itself.\<close>

fun js_strict_eq :: "jsnum \<Rightarrow> jsnum \<Rightarrow> bool" where
  "js_strict_eq (Num a) (Num b) = (a = b)"
| "js_strict_eq _ _ = False"

subsection \<open>Double-precision arithmetic\<close>

text \<open>
  Coordinates, heights and thresholds are JavaScript numbers that need not be integers.
  A finite double is modelled by the rational number it stands for, and an arithmetic
  operation by the exact operation followed by the rounding of IEEE 754 binary64: to the
  nearest double, and to the one with the even significand when two are equally near.
  \<open>pow2 k\<close> is \<open>2\<close> to the power \<open>k\<close>, and \<open>ilog2 x\<close>, for \<open>x > 0\<close>, is the exponent
  \<open>e\<close> with \<open>2^e \<le> x < 2^(e + 1)\<close>.
\<close>

definition pow2 :: "int \<Rightarrow> rat" where
  "pow2 k = (if 0 \<le> k then 2 ^ nat k else 1 / 2 ^ nat (- k))"

definition ilog2 :: "rat \<Rightarrow> int" where
  "ilog2 x = (if 1 \<le> x then bitlen \<lfloor>x\<rfloor> - 1 else - bitlen (\<lceil>1 / x\<rceil> - 1))"

definition round_half_even :: "rat \<Rightarrow> int" where
  "round_half_even m =
     (let f = \<lfloor>m\<rfloor>; r = m - of_int f
      in if r < 1 / 2 then f
         else if r > 1 / 2 then f + 1
         else if even f then f else f + 1)"

text \<open>
  A double has a significand of 53 bits, so the doubles around \<open>x\<close> are the multiples of
  \<open>2^(e - 52)\<close>, and of \<open>2^(- 1074)\<close> in the subnormal range. Results beyond the largest
  double are not turned into an infinity: they stay above every finite double, so a
  comparison with a finite double comes out as it does in the code.
\<close>

definition round_to_double :: "rat \<Rightarrow> rat" where
  "round_to_double x =
     (if x = 0 then 0
      else (let e = ilog2 \<bar>x\<bar>;
                q = max (e - 52) (- 1074);
                n = round_half_even (\<bar>x\<bar> / pow2 q)
            in sgn x * of_int n * pow2 q))"

text \<open>The operators \<open>-\<close> and \<open>*\<close> on doubles.\<close>

definition double_sub :: "rat \<Rightarrow> rat \<Rightarrow> rat" where
  "double_sub a b = round_to_double (a - b)"

definition double_mul :: "rat \<Rightarrow> rat \<Rightarrow> rat" where
  "double_mul a b = round_to_double (a * b)"

subsection \<open>Exceptions\<close>

datatype error = TypeError

text \<open>
  A method either returns (\<open>Inr\<close>) or throws (\<open>Inl\<close>). The object outlives the exception,
  so the thrown branch carries the state the object was left in.
\<close>

type_synonym 'a result = "(error \<times> 'a) + 'a"

definition state_of :: "'a result \<Rightarrow> 'a" where
  "state_of r = (case r of Inl (e, s) \<Rightarrow> s | Inr s \<Rightarrow> s)"

definition and_then :: "'a result \<Rightarrow> ('a \<Rightarrow> 'a result) \<Rightarrow> 'a result" where
  "and_then r f = (case r of Inl x \<Rightarrow> Inl x | Inr s \<Rightarrow> f s)"

section \<open>TestimonialsSlider (js/components.js)\<close>

text \<open>
  The inline \<open>style.transform\<close> of the track element: not set, or \<open>translateX(x%)\<close>.
\<close>

datatype transform = NoTransform | TranslateX jsnum

text \<open>
  The fields of a \<open>TestimonialsSlider\<close> object. \<open>track\<close> is \<open>None\<close> when
  \<open>getElementById\<close> returned \<open>null\<close>; \<open>prev_btn\<close> and \<open>next_btn\<close> tell whether the
  buttons exist; \<open>dots\<close> holds, for each indicator dot, whether it carries the class
  \<open>active\<close>; \<open>cards\<close> is the number of \<open>.testimonial-card\<close> elements;
  \<open>auto_play_interval\<close> is \<open>None\<close> for \<open>null\<close> and \<open>Some h\<close> for a timer handle.
\<close>

record slider =
  track :: "transform option"
  prev_btn :: bool
  next_btn :: bool
  dots :: "bool list"
  cards :: nat
  current_slide :: jsnum
  total_slides :: nat
  auto_play_interval :: "nat option"
  auto_play_delay :: nat

text \<open>
  \<open>updateSlider\<close>. The style declaration \<open>translateX(NaN%)\<close> is not valid, and the
  assignment of an invalid value leaves the inline style as it is.
\<close>

definition update_slider :: "slider \<Rightarrow> slider result" where
  "update_slider s =
     (let translateX = js_mul (js_neg (current_slide s)) (Num 100)
      in case track s of
           None \<Rightarrow> Inl (TypeError, s)
         | Some t \<Rightarrow>
             Inr (s\<lparr>track := Some (if translateX = NaN then t else TranslateX translateX)\<rparr>))"

definition update_dots :: "slider \<Rightarrow> slider result" where
  "update_dots s =
     Inr (s\<lparr>dots := map (\<lambda>index. js_strict_eq (Num (int index)) (current_slide s))
                        [0..<length (dots s)]\<rparr>)"

definition go_to_slide :: "jsnum \<Rightarrow> slider \<Rightarrow> slider result" where
  "go_to_slide index s =
     and_then (update_slider (s\<lparr>current_slide := index\<rparr>)) update_dots"

definition next_slide :: "slider \<Rightarrow> slider result" where
  "next_slide s =
     and_then
       (update_slider
          (s\<lparr>current_slide :=
               js_rem (js_add (current_slide s) (Num 1)) (Num (int (total_slides s)))\<rparr>))
       update_dots"

definition prev_slide :: "slider \<Rightarrow> slider result" where
  "prev_slide s =
     and_then
       (update_slider
          (s\<lparr>current_slide :=
               js_rem (js_add (js_sub (current_slide s) (Num 1)) (Num (int (total_slides s))))
                      (Num (int (total_slides s)))\<rparr>))
       update_dots"

text \<open>The touch coordinates are whole CSS pixels.\<close>

definition handle_swipe :: "int \<Rightarrow> int \<Rightarrow> slider \<Rightarrow> slider result" where
  "handle_swipe startX endX s =
     (let threshold = 50; diff = startX - endX
      in if \<bar>diff\<bar> > threshold
         then (if diff > 0 then next_slide s else prev_slide s)
         else Inr s)"

subsection \<open>The page around the slider: listeners, closure variables, interval timers\<close>

datatype listener =
    OnPrevClick | OnNextClick | OnDotClick nat
  | OnTrackMouseEnter | OnTrackMouseLeave | OnTrackTouchStart | OnTrackTouchEnd

text \<open>
  \<open>obj\<close> is the slider object. \<open>listeners\<close> are the event listeners \<open>bindEvents\<close> has
  registered. \<open>touch_start_x\<close> and \<open>touch_end_x\<close> are the variables \<open>startX\<close> and
  \<open>endX\<close> that the two touch listeners close over. \<open>intervals\<close> are the handles of the
  interval timers that are armed in the window with the callback
  \<open>() => this.nextSlide()\<close>, and \<open>handle_counter\<close> is the last timer handle the window
  has given out.
\<close>

record page =
  obj :: slider
  listeners :: "listener list"
  touch_start_x :: int
  touch_end_x :: int
  intervals :: "nat list"
  handle_counter :: nat

text \<open>
  \<open>setInterval\<close> returns a fresh handle, which is an integer greater than zero, and arms
  the timer; \<open>clearInterval\<close> disarms the timer with the given handle, if there is one.
\<close>

definition set_interval :: "page \<Rightarrow> nat \<times> page" where
  "set_interval p =
     (let h = Suc (handle_counter p)
      in (h, p\<lparr>intervals := intervals p @ [h], handle_counter := h\<rparr>))"

definition clear_interval :: "nat \<Rightarrow> page \<Rightarrow> page" where
  "clear_interval h p = p\<lparr>intervals := removeAll h (intervals p)\<rparr>"

text \<open>
  The test \<open>if (this.autoPlayInterval)\<close> fails for \<open>null\<close> and for the number \<open>0\<close>.
\<close>

definition stop_auto_play :: "page \<Rightarrow> page" where
  "stop_auto_play p =
     (case auto_play_interval (obj p) of
        None \<Rightarrow> p
      | Some h \<Rightarrow>
          if h = 0 then p
          else (let p' = clear_interval h p
                in p'\<lparr>obj := (obj p')\<lparr>auto_play_interval := None\<rparr>\<rparr>))"

definition start_auto_play :: "page \<Rightarrow> page" where
  "start_auto_play p =
     (let (h, p') = set_interval (stop_auto_play p)
      in p'\<lparr>obj := (obj p')\<lparr>auto_play_interval := Some h\<rparr>\<rparr>)"

text \<open>
  A slider method run on the page. An exception leaves the event handler or the caller;
  the object stays as the method left it.
\<close>

definition on_obj :: "(slider \<Rightarrow> slider result) \<Rightarrow> page \<Rightarrow> page" where
  "on_obj m p = p\<lparr>obj := state_of (m (obj p))\<rparr>"

definition handle_touch_events :: "page \<Rightarrow> page result" where
  "handle_touch_events p =
     (case track (obj p) of
        None \<Rightarrow> Inl (TypeError, p)
      | Some t \<Rightarrow>
          Inr (p\<lparr>touch_start_x := 0, touch_end_x := 0,
                 listeners := listeners p @ [OnTrackTouchStart, OnTrackTouchEnd]\<rparr>))"

definition bind_events :: "page \<Rightarrow> page result" where
  "bind_events p =
     (let p1 = (if prev_btn (obj p) then p\<lparr>listeners := listeners p @ [OnPrevClick]\<rparr> else p);
          p2 = (if next_btn (obj p1) then p1\<lparr>listeners := listeners p1 @ [OnNextClick]\<rparr> else p1);
          p3 = p2\<lparr>listeners := listeners p2 @ map OnDotClick [0..<length (dots (obj p2))]\<rparr>
      in case track (obj p3) of
           None \<Rightarrow> Inl (TypeError, p3)
         | Some t \<Rightarrow>
             handle_touch_events
               (p3\<lparr>listeners := listeners p3 @ [OnTrackMouseEnter, OnTrackMouseLeave]\<rparr>))"

definition init :: "page \<Rightarrow> page result" where
  "init p =
     (if track (obj p) = None \<or> total_slides (obj p) = 0 then Inr p
      else and_then (bind_events p) (\<lambda>p'. Inr (start_auto_play p')))"

text \<open>
  What the constructor finds in the document: the track element (with the transform its
  inline style has), the two buttons, the dots (with their \<open>active\<close> classes) and the
  number of testimonial cards. \<open>counter0\<close> is the last timer handle the window gave out
  before the slider was built.
\<close>

record document =
  doc_track :: "transform option"
  doc_prev_btn :: bool
  doc_next_btn :: bool
  doc_dots :: "bool list"
  doc_cards :: nat

definition new_slider :: "document \<Rightarrow> nat \<Rightarrow> page result" where
  "new_slider d counter0 =
     init \<lparr>obj = \<lparr>track = doc_track d, prev_btn = doc_prev_btn d, next_btn = doc_next_btn d,
                  dots = doc_dots d, cards = doc_cards d, current_slide = Num 0,
                  total_slides = doc_cards d, auto_play_interval = None,
                  auto_play_delay = 5000\<rparr>,
           listeners = [], touch_start_x = 0, touch_end_x = 0,
           intervals = [], handle_counter = counter0\<rparr>"

text \<open>
  The events the page can deliver. \<open>handler\<close> is the handler that \<open>bindEvents\<close>
  registered for the event, if any; an interval timer fires only while it is armed, and
  then calls \<open>nextSlide\<close>. \<open>dispatch\<close> runs the handler.
\<close>

datatype event =
    PrevClick | NextClick | DotClick nat
  | MouseEnter | MouseLeave | TouchStart int | TouchEnd int
  | IntervalFires nat

fun handler :: "event \<Rightarrow> page \<Rightarrow> (page \<Rightarrow> page) option" where
  "handler PrevClick p =
     (if OnPrevClick \<in> set (listeners p) then Some (on_obj prev_slide) else None)"
| "handler NextClick p =
     (if OnNextClick \<in> set (listeners p) then Some (on_obj next_slide) else None)"
| "handler (DotClick index) p =
     (if OnDotClick index \<in> set (listeners p)
      then Some (on_obj (go_to_slide (Num (int index)))) else None)"
| "handler MouseEnter p =
     (if OnTrackMouseEnter \<in> set (listeners p) then Some stop_auto_play else None)"
| "handler MouseLeave p =
     (if OnTrackMouseLeave \<in> set (listeners p) then Some start_auto_play else None)"
| "handler (TouchStart x) p =
     (if OnTrackTouchStart \<in> set (listeners p)
      then Some (\<lambda>p. p\<lparr>touch_start_x := x\<rparr>) else None)"
| "handler (TouchEnd x) p =
     (if OnTrackTouchEnd \<in> set (listeners p)
      then Some (\<lambda>p. let p' = p\<lparr>touch_end_x := x\<rparr>
                     in on_obj (handle_swipe (touch_start_x p') (touch_end_x p')) p')
      else None)"
| "handler (IntervalFires h) p =
     (if h \<in> set (intervals p) then Some (on_obj next_slide) else None)"

definition dispatch :: "event \<Rightarrow> page \<Rightarrow> page" where
  "dispatch e p = (case handler e p of None \<Rightarrow> p | Some f \<Rightarrow> f p)"

text \<open>Direct calls of the slider's methods, as any holder of the object can make them.\<close>

datatype invocation =
    GoToSlide jsnum | NextSlide | PrevSlide | HandleSwipe int int
  | UpdateSlider | UpdateDots | StartAutoPlay | StopAutoPlay

fun call :: "invocation \<Rightarrow> page \<Rightarrow> page" where
  "call (GoToSlide index) p = on_obj (go_to_slide index) p"
| "call NextSlide p = on_obj next_slide p"
| "call PrevSlide p = on_obj prev_slide p"
| "call (HandleSwipe startX endX) p = on_obj (handle_swipe startX endX) p"
| "call UpdateSlider p = on_obj update_slider p"
| "call UpdateDots p = on_obj update_dots p"
| "call StartAutoPlay p = start_auto_play p"
| "call StopAutoPlay p = stop_auto_play p"

datatype action = Call invocation | Event event

fun step :: "action \<Rightarrow> page \<Rightarrow> page" where
  "step (Call m) p = call m p"
| "step (Event e) p = dispatch e p"

fun run :: "action list \<Rightarrow> page \<Rightarrow> page" where
  "run [] p = p"
| "run (a # as) p = run as (step a p)"

text \<open>
  The timer invariant: the interval timers armed for the slider are exactly the one whose
  handle the field \<open>autoPlayInterval\<close> holds, a handle the window has given out, and
  none when the field is \<open>null\<close>.
\<close>

definition timer_inv :: "page \<Rightarrow> bool" where
  "timer_inv p =
     (case auto_play_interval (obj p) of
        None \<Rightarrow> intervals p = []
      | Some h \<Rightarrow> h \<noteq> 0 \<and> h \<le> handle_counter p \<and> intervals p = [h])"

text \<open>The slide index is valid: an integer in \<open>[0, N - 1]\<close>.\<close>

definition valid_index :: "slider \<Rightarrow> bool" where
  "valid_index s =
     (case current_slide s of
        Num i \<Rightarrow> 0 \<le> i \<and> i < int (total_slides s)
      | NaN \<Rightarrow> False)"

text \<open>
  A sequence of \<open>nextSlide()\<close> and \<open>prevSlide()\<close> calls, and the states of the slider
  after each of them.
\<close>

datatype nav = Next | Previous

fun nav_call :: "nav \<Rightarrow> slider \<Rightarrow> slider" where
  "nav_call Next s = state_of (next_slide s)"
| "nav_call Previous s = state_of (prev_slide s)"

fun nav_states :: "nav list \<Rightarrow> slider \<Rightarrow> slider list" where
  "nav_states [] s = []"
| "nav_states (n # ns) s = nav_call n s # nav_states ns (nav_call n s)"

section \<open>ScrollReveal (js/components.js)\<close>

text \<open>\<open>classList.add\<close>: the class list is a set, adding a class twice changes nothing.\<close>

definition class_list_add :: "string \<Rightarrow> string list \<Rightarrow> string list" where
  "class_list_add c cl = (if c \<in> set cl then cl else cl @ [c])"

text \<open>
  \<open>sr_elements\<close> are the class lists of the \<open>.reveal\<close> elements, in document order.
\<close>

record scroll_reveal =
  sr_elements :: "string list list"
  sr_threshold :: rat

text \<open>
  \<open>checkElements\<close> of \<open>ScrollReveal\<close>. The function \<open>isInViewport\<close> it calls is
  imported from \<open>js/utils.js\<close>; its answer for the element at each position, at the
  time of the pass, is the parameter \<open>isInViewport\<close>.
\<close>

definition sr_check_elements :: "(nat \<Rightarrow> bool) \<Rightarrow> scroll_reveal \<Rightarrow> scroll_reveal" where
  "sr_check_elements isInViewport r =
     r\<lparr>sr_elements :=
         map (\<lambda>(index, cl). if isInViewport index then class_list_add ''revealed'' cl else cl)
             (enumerate 0 (sr_elements r))\<rparr>"

text \<open>
  The constructor and \<open>init\<close>: without elements nothing happens, otherwise the
  listeners are bound and a first pass runs.
\<close>

definition new_scroll_reveal :: "string list list \<Rightarrow> (nat \<Rightarrow> bool) \<Rightarrow> scroll_reveal" where
  "new_scroll_reveal els isInViewport =
     (let r = \<lparr>sr_elements = els, sr_threshold = round_to_double (1 / 10)\<rparr>
      in if length els = 0 then r else sr_check_elements isInViewport r)"

text \<open>Several passes, one after the other, each with the geometry of its moment.\<close>

fun sr_passes :: "(nat \<Rightarrow> bool) list \<Rightarrow> scroll_reveal \<Rightarrow> scroll_reveal" where
  "sr_passes [] r = r"
| "sr_passes (v # vs) r = sr_passes vs (sr_check_elements v r)"

section \<open>ScrollAnimationController (js/animations.js)\<close>

text \<open>
  A \<open>[data-aos]\<close> element: the attributes \<open>data-aos-delay\<close> and
  \<open>data-aos-duration\<close>, \<open>None\<close> when the attribute is missing.
\<close>

record aos_element =
  data_aos :: string
  data_aos_delay :: "nat option"
  data_aos_duration :: "nat option"

text \<open>
  \<open>sa_timeouts\<close> are the timeouts \<open>animateElement\<close> has set: the delay and the position
  of the element that the callback will animate.
\<close>

record scroll_animation =
  sa_elements :: "aos_element list"
  sa_threshold :: rat
  sa_timeouts :: "(nat \<times> nat) list"

record viewport =
  inner_height :: rat
  client_height :: rat

text \<open>\<open>window.innerHeight || document.documentElement.clientHeight\<close>: \<open>0\<close> is falsy.\<close>

definition window_height :: "viewport \<Rightarrow> rat" where
  "window_height w = (if inner_height w \<noteq> 0 then inner_height w else client_height w)"

text \<open>
  \<open>isInViewport\<close>, given \<open>getBoundingClientRect().top\<close> of the element. The bound
  \<open>windowHeight * (1 - this.threshold)\<close> is computed as the code computes it: the
  difference is rounded to a double, and so is the product.
\<close>

definition is_in_viewport :: "scroll_animation \<Rightarrow> viewport \<Rightarrow> rat \<Rightarrow> bool" where
  "is_in_viewport c w rect_top =
     (let windowHeight = window_height w
      in rect_top \<ge> 0 \<and> rect_top \<le> double_mul windowHeight (double_sub 1 (sa_threshold c)))"

text \<open>
  \<open>animateElement\<close> sets a timeout with the element's delay (\<open>0\<close> without the attribute);
  the callback that then styles the element is not part of the model.
\<close>

definition animate_element :: "nat \<Rightarrow> aos_element \<Rightarrow> scroll_animation \<Rightarrow> scroll_animation" where
  "animate_element index element c =
     (let delay = (case data_aos_delay element of None \<Rightarrow> 0 | Some d \<Rightarrow> d)
      in c\<lparr>sa_timeouts := sa_timeouts c @ [(delay, index)]\<rparr>)"

text \<open>
  \<open>checkElements\<close> of \<open>ScrollAnimationController\<close>; \<open>tops\<close> gives the top coordinate of
  the bounding rectangle of the element at each position at the time of the pass.
\<close>

definition sa_check_elements ::
  "viewport \<Rightarrow> (nat \<Rightarrow> rat) \<Rightarrow> scroll_animation \<Rightarrow> scroll_animation" where
  "sa_check_elements w tops c =
     fold (\<lambda>(index, element) c'.
             if is_in_viewport c' w (tops index) then animate_element index element c' else c')
          (enumerate 0 (sa_elements c)) c"

text \<open>
  The positions of the elements for which a pass has called \<open>animateElement\<close>: those of
  the timeouts the pass has added.
\<close>

definition triggered :: "viewport \<Rightarrow> (nat \<Rightarrow> rat) \<Rightarrow> scroll_animation \<Rightarrow> nat list" where
  "triggered w tops c =
     map snd (drop (length (sa_timeouts c)) (sa_timeouts (sa_check_elements w tops c)))"

text \<open>
  The constructor and \<open>init\<close>: the threshold is the literal \<open>0.1\<close>, that is the double
  nearest to one tenth; without elements nothing happens, otherwise the listeners are
  bound and a first pass runs.
\<close>

definition new_scroll_animation ::
  "aos_element list \<Rightarrow> viewport \<Rightarrow> (nat \<Rightarrow> rat) \<Rightarrow> scroll_animation" where
  "new_scroll_animation els w tops =
     (let c = \<lparr>sa_elements = els, sa_threshold = round_to_double (1 / 10),
                sa_timeouts = []\<rparr>
      in if length els = 0 then c else sa_check_elements w tops c)"

section \<open>IntersectionAnimationController (js/animations.js)\<close>

text \<open>The inline styles of an animated element that the controller writes.\<close>

record io_element =
  opacity :: string
  transform_style :: string
  transition :: string

text \<open>
  \<open>io_elements\<close> are the elements the selector
  \<open>.service-card, .fleet-card, .feature-item, .contact-method\<close> finds, in document
  order. \<open>observer\<close> is \<open>None\<close> for \<open>null\<close>, otherwise the positions of the elements the
  observer observes. \<open>io_timeouts\<close> are the pending timeouts of the fallback: the delay in
  milliseconds and the position of the element the callback reveals.
\<close>

record io_controller =
  io_elements :: "io_element list"
  observer :: "nat list option"
  io_timeouts :: "(nat \<times> nat) list"

text \<open>The element at position \<open>i\<close> changed by \<open>f\<close>, the others as they are.\<close>

definition update_at :: "nat \<Rightarrow> ('a \<Rightarrow> 'a) \<Rightarrow> 'a list \<Rightarrow> 'a list" where
  "update_at i f xs = map (\<lambda>(j, x). if j = i then f x else x) (enumerate 0 xs)"

definition create_observer :: "io_controller \<Rightarrow> io_controller" where
  "create_observer c = c\<lparr>observer := Some []\<rparr>"

definition hide :: "io_element \<Rightarrow> io_element" where
  "hide e = e\<lparr>opacity := ''0'', transform_style := ''translateY(30px)''\<rparr>"

text \<open>
  \<open>observeElements\<close>. Without an observer the first \<open>this.observer.observe\<close> throws,
  after the first element has been hidden.
\<close>

definition observe_elements :: "io_controller \<Rightarrow> io_controller result" where
  "observe_elements c =
     (case observer c of
        None \<Rightarrow>
          (case io_elements c of
             [] \<Rightarrow> Inr c
           | e # es \<Rightarrow> Inl (TypeError, c\<lparr>io_elements := hide e # es\<rparr>))
      | Some targets \<Rightarrow>
          Inr (c\<lparr>io_elements := map hide (io_elements c),
                 observer := Some (fold List.insert [0..<length (io_elements c)] targets)\<rparr>))"

text \<open>\<open>animateElement\<close>, on the styles of the element it is given.\<close>

definition io_animate_element :: "io_element \<Rightarrow> io_element" where
  "io_animate_element e =
     e\<lparr>transition := ''opacity 0.6s ease, transform 0.6s ease'',
       opacity := ''1'', transform_style := ''translateY(0)''\<rparr>"

definition unobserve :: "nat \<Rightarrow> io_controller \<Rightarrow> io_controller" where
  "unobserve target c =
     (case observer c of
        None \<Rightarrow> c
      | Some targets \<Rightarrow> c\<lparr>observer := Some (removeAll target targets)\<rparr>)"

text \<open>
  The observer's callback, run on the entries the browser delivers: each entry names its
  target and tells whether it is intersecting.
\<close>

definition observer_callback :: "(nat \<times> bool) list \<Rightarrow> io_controller \<Rightarrow> io_controller" where
  "observer_callback entries c =
     fold (\<lambda>(target, isIntersecting) c'.
             if isIntersecting
             then unobserve target
                    (c'\<lparr>io_elements := update_at target io_animate_element (io_elements c')\<rparr>)
             else c')
          entries c"

fun observer_callbacks :: "(nat \<times> bool) list list \<Rightarrow> io_controller \<Rightarrow> io_controller" where
  "observer_callbacks [] c = c"
| "observer_callbacks (entries # rest) c = observer_callbacks rest (observer_callback entries c)"

definition fallback_animation :: "io_controller \<Rightarrow> io_controller" where
  "fallback_animation c =
     c\<lparr>io_timeouts :=
         io_timeouts c @ map (\<lambda>index. (index * 200, index)) [0..<length (io_elements c)]\<rparr>"

text \<open>
  \<open>init\<close>; \<open>has_observer\<close> is the test \<open>'IntersectionObserver' in window\<close>.
\<close>

definition io_init :: "bool \<Rightarrow> io_controller \<Rightarrow> io_controller result" where
  "io_init has_observer c =
     (if \<not> has_observer then Inr (fallback_animation c)
      else observe_elements (create_observer c))"

definition new_io_controller :: "bool \<Rightarrow> io_element list \<Rightarrow> io_controller result" where
  "new_io_controller has_observer els =
     io_init has_observer \<lparr>io_elements = els, observer = None, io_timeouts = []\<rparr>"

text \<open>The callback of a fallback timeout reveals its element.\<close>

definition fallback_callback :: "nat \<Rightarrow> io_controller \<Rightarrow> io_controller" where
  "fallback_callback index c =
     c\<lparr>io_elements :=
         update_at index (\<lambda>e. e\<lparr>opacity := ''1'', transform_style := ''translateY(0)''\<rparr>)
           (io_elements c)\<rparr>"

text \<open>
  The state \<open>t\<close> milliseconds after the timeouts were set: every timeout whose delay
  has passed has fired, the earlier delay first, and is no longer pending.
\<close>

definition elapse :: "nat \<Rightarrow> io_controller \<Rightarrow> io_controller" where
  "elapse t c =
     (let due = filter (\<lambda>(delay, index). delay \<le> t) (sort_key fst (io_timeouts c));
          c' = c\<lparr>io_timeouts := filter (\<lambda>(delay, index). \<not> delay \<le> t) (io_timeouts c)\<rparr>
      in fold (\<lambda>(delay, index). fallback_callback index) due c')"

definition revealed :: "io_element \<Rightarrow> bool" where
  "revealed e = (opacity e = ''1'' \<and> transform_style e = ''translateY(0)'')"

section \<open>Concrete pages\<close>

definition three_cards :: document where
  "three_cards =
     \<lparr>doc_track = Some NoTransform, doc_prev_btn = True, doc_next_btn = True,
      doc_dots = [True, False, False], doc_cards = 3\<rparr>"

definition no_cards :: document where
  "no_cards =
     \<lparr>doc_track = Some NoTransform, doc_prev_btn = True, doc_next_btn = True,
      doc_dots = [], doc_cards = 0\<rparr>"

definition three_slider :: slider where
  "three_slider = obj (state_of (new_slider three_cards 0))"

definition no_slider :: slider where
  "no_slider = obj (state_of (new_slider no_cards 0))"

definition hidden_card :: io_element where
  "hidden_card = \<lparr>opacity = ''0'', transform_style = ''translateY(30px)'', transition = []\<rparr>"

definition plain_card :: io_element where
  "plain_card = \<lparr>opacity = [], transform_style = [], transition = []\<rparr>"

text \<open>Every element in the viewport, and none.\<close>

definition all_visible :: "nat \<Rightarrow> bool" where
  "all_visible index = True"

definition none_visible :: "nat \<Rightarrow> bool" where
  "none_visible index = False"

definition one_reveal :: scroll_reveal where
  "one_reveal = new_scroll_reveal [[''reveal'']] none_visible"

definition observed_card :: io_controller where
  "observed_card = state_of (new_io_controller True [plain_card])"

definition fade_up :: aos_element where
  "fade_up = \<lparr>data_aos = ''fade-up'', data_aos_delay = None, data_aos_duration = None\<rparr>"

definition tall_window :: viewport where
  "tall_window = \<lparr>inner_height = 1000, client_height = 1000\<rparr>"

definition short_window :: viewport where
  "short_window = \<lparr>inner_height = 768, client_height = 768\<rparr>"

text \<open>The double nearest to \<open>691.2\<close>.\<close>

definition double_691_2 :: rat where
  "double_691_2 = round_to_double (3456 / 5)"

text \<open>Every element with its top at the same coordinate.\<close>

definition tops_at :: "rat \<Rightarrow> nat \<Rightarrow> rat" where
  "tops_at y index = y"

definition one_fade_up :: scroll_animation where
  "one_fade_up = new_scroll_animation [fade_up] tall_window (tops_at 2000)"

section \<open>Properties of the slider\<close>

lemma state_of_simps [simp]: "state_of (Inl (e, s)) = s" "state_of (Inr s) = s"
  by (simp_all add: state_of_def)

lemma render_current_slide:
  "current_slide (state_of (and_then (update_slider s) update_dots)) = current_slide s"
  by (simp add: and_then_def update_slider_def Let_def update_dots_def split: option.split)

lemma render_total_slides:
  "total_slides (state_of (and_then (update_slider s) update_dots)) = total_slides s"
  by (simp add: and_then_def update_slider_def Let_def update_dots_def split: option.split)

lemma render_auto_play_interval:
  "auto_play_interval (state_of (and_then (update_slider s) update_dots))
     = auto_play_interval s"
  by (simp add: and_then_def update_slider_def Let_def update_dots_def split: option.split)

lemma next_slide_index:
  "current_slide (state_of (next_slide s)) =
     js_rem (js_add (current_slide s) (Num 1)) (Num (int (total_slides s)))"
  by (simp add: next_slide_def render_current_slide)

lemma prev_slide_index:
  "current_slide (state_of (prev_slide s)) =
     js_rem (js_add (js_sub (current_slide s) (Num 1)) (Num (int (total_slides s))))
            (Num (int (total_slides s)))"
  by (simp add: prev_slide_def render_current_slide)

lemma nav_call_total: "total_slides (nav_call n s) = total_slides s"
  by (cases n) (simp_all add: next_slide_def prev_slide_def render_total_slides)

lemma js_rem_nonneg: "0 \<le> a \<Longrightarrow> 0 < b \<Longrightarrow> js_rem (Num a) (Num b) = Num (a mod b)"
  by (cases "a = 0") (simp_all add: sgn_if)

lemma next_index_valid:
  assumes "current_slide s = Num i" "0 \<le> i" "i < int (total_slides s)"
  shows "current_slide (nav_call Next s) = Num ((i + 1) mod int (total_slides s))"
  using assms by (simp add: next_slide_index js_rem_nonneg del: js_rem.simps)

lemma prev_index_valid:
  assumes "current_slide s = Num i" "0 \<le> i" "i < int (total_slides s)"
  shows "current_slide (nav_call Previous s)
           = Num ((i - 1 + int (total_slides s)) mod int (total_slides s))"
  using assms by (simp add: prev_slide_index js_rem_nonneg del: js_rem.simps)

lemma nav_call_valid: "valid_index s \<Longrightarrow> valid_index (nav_call n s)"
proof -
  assume v: "valid_index s"
  then obtain i where i: "current_slide s = Num i" "0 \<le> i" "i < int (total_slides s)"
    by (auto simp: valid_index_def split: jsnum.splits)
  show ?thesis
  proof (cases n)
    case Next
    with i show ?thesis
      using next_index_valid[OF i]
      by (simp add: valid_index_def nav_call_total del: nav_call.simps)
  next
    case Previous
    with i show ?thesis
      using prev_index_valid[OF i]
      by (simp add: valid_index_def nav_call_total del: nav_call.simps)
  qed
qed

lemma nav_states_valid:
  "valid_index s \<Longrightarrow> s' \<in> set (nav_states ns s) \<Longrightarrow>
   valid_index s' \<and> total_slides s' = total_slides s"
proof (induction ns arbitrary: s)
  case Nil
  then show ?case by simp
next
  case (Cons n ns)
  then show ?case
    using nav_call_valid[of s n] nav_call_total[of n s] by (auto simp del: nav_call.simps)
qed

text \<open>
  C1: for every slide count \<open>N \<ge> 1\<close> and every finite sequence of \<open>nextSlide()\<close> and
  \<open>prevSlide()\<close> calls that starts from a valid index, the index of the slider is in
  \<open>[0, N - 1]\<close> after each call.
\<close>

theorem index_stays_in_range:
  assumes "1 \<le> total_slides s" and "valid_index s"
  shows "\<forall>s' \<in> set (nav_states ns s).
           \<exists>i. current_slide s' = Num i \<and> 0 \<le> i \<and> i \<le> int (total_slides s) - 1"
proof
  fix s' assume "s' \<in> set (nav_states ns s)"
  with assms(2) have "valid_index s'" "total_slides s' = total_slides s"
    using nav_states_valid by blast+
  then show "\<exists>i. current_slide s' = Num i \<and> 0 \<le> i \<and> i \<le> int (total_slides s) - 1"
    by (auto simp: valid_index_def split: jsnum.splits)
qed

lemma wrap_next_prev:
  fixes i N :: int
  assumes "0 \<le> i" "i < N"
  shows "((i + 1) mod N - 1 + N) mod N = i"
proof (cases "i + 1 = N")
  case True
  then have "(i + 1) mod N = 0" by simp
  then have "(i + 1) mod N - 1 + N = i" using True by arith
  moreover have "i mod N = i" using assms by (rule mod_pos_pos_trivial)
  ultimately show ?thesis by (simp only:)
next
  case False
  with assms have "(i + 1) mod N = i + 1" by (intro mod_pos_pos_trivial) arith+
  then have "(i + 1) mod N - 1 + N = i + N" by arith
  moreover have "(i + N) mod N = i mod N" by (rule mod_add_self2)
  moreover have "i mod N = i" using assms by (rule mod_pos_pos_trivial)
  ultimately show ?thesis by (simp only:)
qed

lemma wrap_prev_next:
  fixes i N :: int
  assumes "0 \<le> i" "i < N"
  shows "((i - 1 + N) mod N + 1) mod N = i"
proof (cases "i = 0")
  case True
  with assms have "(i - 1 + N) mod N = i - 1 + N" by (intro mod_pos_pos_trivial) arith+
  then have "(i - 1 + N) mod N + 1 = N" using True by arith
  then show ?thesis using True by (simp only: mod_self)
next
  case False
  have "(i - 1 + N) mod N = (i - 1) mod N" by (rule mod_add_self2)
  moreover have "(i - 1) mod N = i - 1" using assms False by (intro mod_pos_pos_trivial) arith+
  ultimately have "(i - 1 + N) mod N + 1 = i" by arith
  moreover have "i mod N = i" using assms by (rule mod_pos_pos_trivial)
  ultimately show ?thesis by (simp only:)
qed

text \<open>
  C10: for every slide count \<open>N \<ge> 1\<close> and every index in \<open>[0, N - 1]\<close>,
  \<open>nextSlide()\<close> followed by \<open>prevSlide()\<close> restores the index, and so does
  \<open>prevSlide()\<close> followed by \<open>nextSlide()\<close>.
\<close>

theorem next_prev_inverse:
  assumes "1 \<le> total_slides s" and "valid_index s"
  shows "current_slide (nav_call Previous (nav_call Next s)) = current_slide s
       \<and> current_slide (nav_call Next (nav_call Previous s)) = current_slide s"
proof -
  from assms(2) obtain i where i: "current_slide s = Num i" "0 \<le> i" "i < int (total_slides s)"
    by (auto simp: valid_index_def split: jsnum.splits)
  let ?N = "int (total_slides s)"
  have n: "current_slide (nav_call Next s) = Num ((i + 1) mod ?N)"
    by (rule next_index_valid[OF i])
  have p: "current_slide (nav_call Previous s) = Num ((i - 1 + ?N) mod ?N)"
    by (rule prev_index_valid[OF i])
  have n1: "0 \<le> (i + 1) mod ?N" "(i + 1) mod ?N < int (total_slides (nav_call Next s))"
    using i by (simp_all add: nav_call_total del: nav_call.simps)
  have p1: "0 \<le> (i - 1 + ?N) mod ?N"
    "(i - 1 + ?N) mod ?N < int (total_slides (nav_call Previous s))"
    using i by (simp_all add: nav_call_total del: nav_call.simps)
  have "current_slide (nav_call Previous (nav_call Next s)) = Num i"
    using prev_index_valid[OF n n1] wrap_next_prev[OF i(2,3)]
    by (simp only: nav_call_total)
  moreover have "current_slide (nav_call Next (nav_call Previous s)) = Num i"
    using next_index_valid[OF p p1] wrap_prev_next[OF i(2,3)]
    by (simp only: nav_call_total)
  ultimately show ?thesis using i(1) by simp
qed

lemma three_slider_eq:
  "three_slider =
     \<lparr>track = Some NoTransform, prev_btn = True, next_btn = True,
      dots = [True, False, False], cards = 3, current_slide = Num 0,
      total_slides = 3, auto_play_interval = Some 1, auto_play_delay = 5000\<rparr>"
  by (simp add: three_slider_def new_slider_def init_def bind_events_def and_then_def
      handle_touch_events_def start_auto_play_def stop_auto_play_def set_interval_def
      three_cards_def)

theorem index_stays_in_range_witness:
  "1 \<le> total_slides three_slider \<and> valid_index three_slider \<and>
   list_all (\<lambda>s'. \<exists>i. current_slide s' = Num i \<and> 0 \<le> i
                    \<and> i \<le> int (total_slides three_slider) - 1)
            (nav_states [Next, Next, Next, Previous] three_slider)"
proof -
  have h1: "1 \<le> total_slides three_slider" by (simp add: three_slider_eq)
  have h2: "valid_index three_slider" by (simp add: three_slider_eq valid_index_def)
  show ?thesis
    unfolding list_all_iff
    using h1 h2 index_stays_in_range[OF h1 h2, of "[Next, Next, Next, Previous]"] by blast
qed

theorem next_prev_inverse_witness:
  "1 \<le> total_slides three_slider \<and> valid_index three_slider \<and>
   current_slide (nav_call Previous (nav_call Next three_slider)) = current_slide three_slider \<and>
   current_slide (nav_call Next (nav_call Previous three_slider)) = current_slide three_slider"
proof -
  have h1: "1 \<le> total_slides three_slider" by (simp add: three_slider_eq)
  have h2: "valid_index three_slider" by (simp add: three_slider_eq valid_index_def)
  show ?thesis using h1 h2 next_prev_inverse[OF h1 h2] by blast
qed

lemma render_fields:
  "\<exists>t d. state_of (and_then (update_slider s) update_dots) = s\<lparr>track := t, dots := d\<rparr>"
proof (cases "track s")
  case None
  then have "state_of (and_then (update_slider s) update_dots)
               = s\<lparr>track := track s, dots := dots s\<rparr>"
    by (simp add: and_then_def update_slider_def Let_def)
  then show ?thesis by blast
next
  case (Some t0)
  then show ?thesis
    by (simp add: and_then_def update_slider_def Let_def update_dots_def)
       (metis slider.update_convs(1,4) slider.surjective)
qed

lemma go_to_slide_index: "current_slide (state_of (go_to_slide index s)) = index"
  by (simp add: go_to_slide_def render_current_slide)

lemma go_to_slide_total: "total_slides (state_of (go_to_slide index s)) = total_slides s"
  by (simp add: go_to_slide_def render_total_slides)

lemma no_slider_eq:
  "no_slider =
     \<lparr>track = Some NoTransform, prev_btn = True, next_btn = True,
      dots = [], cards = 0, current_slide = Num 0,
      total_slides = 0, auto_play_interval = None, auto_play_delay = 5000\<rparr>"
  by (simp add: no_slider_def new_slider_def init_def no_cards_def)

text \<open>
  C2, as claimed, fails: with three slides \<open>goToSlide(5)\<close> leaves the index \<open>5\<close>, which is
  neither \<open>5 mod 3\<close> nor a valid index.
\<close>

theorem go_to_slide_counterexample:
  "current_slide (state_of (go_to_slide (Num 5) three_slider))
       \<noteq> Num (5 mod int (total_slides three_slider))
   \<and> \<not> valid_index (state_of (go_to_slide (Num 5) three_slider))"
  by (simp add: go_to_slide_index go_to_slide_total valid_index_def three_slider_eq)

text \<open>
  C2, amended: for every integer \<open>i\<close> and every slide count \<open>N\<close>, \<open>goToSlide(i)\<close> stores
  \<open>i\<close> itself as the index, without a modulo; the stored index is a valid index in
  \<open>[0, N - 1]\<close>, and for \<open>N > 0\<close> equal to \<open>i mod N\<close>, exactly when \<open>0 \<le> i < N\<close>.
\<close>

theorem go_to_slide_stores_index:
  "current_slide (state_of (go_to_slide (Num i) s)) = Num i
   \<and> (valid_index (state_of (go_to_slide (Num i) s)) \<longleftrightarrow> 0 \<le> i \<and> i < int (total_slides s))
   \<and> (0 < total_slides s \<longrightarrow>
        (current_slide (state_of (go_to_slide (Num i) s)) = Num (i mod int (total_slides s))
           \<longleftrightarrow> 0 \<le> i \<and> i < int (total_slides s)))"
proof -
  have "0 < total_slides s \<Longrightarrow>
        (i = i mod int (total_slides s)) = (0 \<le> i \<and> i < int (total_slides s))"
    by (metis mod_pos_pos_trivial of_nat_0_less_iff pos_mod_bound pos_mod_sign)
  then show ?thesis
    by (simp add: go_to_slide_index go_to_slide_total valid_index_def)
qed

theorem go_to_slide_stores_index_witness:
  "0 < total_slides three_slider
   \<and> current_slide (state_of (go_to_slide (Num 1) three_slider)) = Num 1
   \<and> valid_index (state_of (go_to_slide (Num 1) three_slider))
   \<and> current_slide (state_of (go_to_slide (Num 1) three_slider))
        = Num (1 mod int (total_slides three_slider))"
proof -
  have h: "0 < total_slides three_slider" by (simp add: three_slider_eq)
  have r: "(0::int) \<le> 1 \<and> 1 < int (total_slides three_slider)" by (simp add: three_slider_eq)
  show ?thesis using h r go_to_slide_stores_index[of 1 three_slider] by blast
qed



text \<open>
  C9: for every index and every autoplay state, \<open>goToSlide\<close> changes only the index, the
  offset of the track and the active state of the dots; the field \<open>autoPlayInterval\<close>,
  the armed interval timers and the handles the window has given out stay as they were.
\<close>

theorem go_to_slide_frame:
  "(\<exists>t d. call (GoToSlide index) p
            = p\<lparr>obj := (obj p)\<lparr>current_slide := index, track := t, dots := d\<rparr>\<rparr>)
   \<and> auto_play_interval (obj (call (GoToSlide index) p)) = auto_play_interval (obj p)
   \<and> intervals (call (GoToSlide index) p) = intervals p
   \<and> handle_counter (call (GoToSlide index) p) = handle_counter p"
proof -
  obtain t d where
    "state_of (go_to_slide index (obj p)) = (obj p)\<lparr>current_slide := index, track := t, dots := d\<rparr>"
    using render_fields[of "(obj p)\<lparr>current_slide := index\<rparr>"]
    by (auto simp: go_to_slide_def)
  then have eq: "call (GoToSlide index) p
               = p\<lparr>obj := (obj p)\<lparr>current_slide := index, track := t, dots := d\<rparr>\<rparr>"
    by (simp add: on_obj_def)
  show ?thesis
  proof (intro conjI)
    show "\<exists>t d. call (GoToSlide index) p
            = p\<lparr>obj := (obj p)\<lparr>current_slide := index, track := t, dots := d\<rparr>\<rparr>"
      using eq by blast
  qed (simp_all add: eq del: call.simps)
qed

theorem go_to_slide_frame_witness:
  "auto_play_interval (obj (call (GoToSlide (Num 2)) (state_of (new_slider three_cards 0)))) = Some 1
   \<and> intervals (call (GoToSlide (Num 2)) (state_of (new_slider three_cards 0))) = [1]
   \<and> handle_counter (call (GoToSlide (Num 2)) (state_of (new_slider three_cards 0))) = 1"
proof -
  have "auto_play_interval (obj (state_of (new_slider three_cards 0))) = Some 1"
       "intervals (state_of (new_slider three_cards 0)) = [1]"
       "handle_counter (state_of (new_slider three_cards 0)) = 1"
    by (simp_all add: new_slider_def init_def bind_events_def and_then_def
      handle_touch_events_def start_auto_play_def stop_auto_play_def set_interval_def
      three_cards_def)
  then show ?thesis
    using go_to_slide_frame[of "Num 2" "state_of (new_slider three_cards 0)"] by simp
qed

section \<open>Properties of the page events and the autoplay timer\<close>

lemma next_slide_interval: "auto_play_interval (state_of (next_slide s)) = auto_play_interval s"
  by (simp add: next_slide_def render_auto_play_interval)

lemma prev_slide_interval: "auto_play_interval (state_of (prev_slide s)) = auto_play_interval s"
  by (simp add: prev_slide_def render_auto_play_interval)

lemma go_to_slide_interval:
  "auto_play_interval (state_of (go_to_slide index s)) = auto_play_interval s"
  by (simp add: go_to_slide_def render_auto_play_interval)

lemma handle_swipe_interval:
  "auto_play_interval (state_of (handle_swipe a b s)) = auto_play_interval s"
  by (simp add: handle_swipe_def Let_def next_slide_interval prev_slide_interval)

lemma update_slider_interval:
  "auto_play_interval (state_of (update_slider s)) = auto_play_interval s"
  by (simp add: update_slider_def Let_def split: option.split)

lemma update_dots_interval:
  "auto_play_interval (state_of (update_dots s)) = auto_play_interval s"
  by (simp add: update_dots_def)

lemma timer_inv_on_obj:
  "auto_play_interval (state_of (m (obj p))) = auto_play_interval (obj p) \<Longrightarrow>
   timer_inv p \<Longrightarrow> timer_inv (on_obj m p)"
  by (auto simp: timer_inv_def on_obj_def split: option.splits)

lemma timer_inv_stop: "timer_inv p \<Longrightarrow> timer_inv (stop_auto_play p)"
  by (auto simp: timer_inv_def stop_auto_play_def clear_interval_def split: option.splits)

lemma start_arms_one:
  "timer_inv p \<Longrightarrow>
   intervals (start_auto_play p) = [Suc (handle_counter p)] \<and>
   auto_play_interval (obj (start_auto_play p)) = Some (Suc (handle_counter p)) \<and>
   handle_counter (start_auto_play p) = Suc (handle_counter p)"
  by (auto simp: timer_inv_def start_auto_play_def stop_auto_play_def clear_interval_def
      set_interval_def split: option.splits)

lemma timer_inv_start: "timer_inv p \<Longrightarrow> timer_inv (start_auto_play p)"
  using start_arms_one[of p] by (simp add: timer_inv_def)

lemma timer_inv_call: "timer_inv p \<Longrightarrow> timer_inv (call m p)"
  by (cases m)
     (simp_all add: timer_inv_on_obj go_to_slide_interval next_slide_interval prev_slide_interval
       handle_swipe_interval update_slider_interval update_dots_interval timer_inv_stop
       timer_inv_start)

lemma timer_inv_dispatch: "timer_inv p \<Longrightarrow> timer_inv (dispatch e p)"
proof (cases e)
  case (TouchStart x)
  assume "timer_inv p"
  then show ?thesis using TouchStart by (auto simp: dispatch_def timer_inv_def split: option.splits)
next
  case (TouchEnd x)
  assume "timer_inv p"
  then have "timer_inv (p\<lparr>touch_end_x := x\<rparr>)" by (auto simp: timer_inv_def split: option.splits)
  then show ?thesis using TouchEnd \<open>timer_inv p\<close>
    by (simp add: dispatch_def Let_def timer_inv_on_obj handle_swipe_interval)
qed (simp_all add: dispatch_def timer_inv_on_obj go_to_slide_interval next_slide_interval
       prev_slide_interval timer_inv_stop timer_inv_start)

lemma timer_inv_run: "timer_inv p \<Longrightarrow> timer_inv (run as p)"
proof (induction as arbitrary: p)
  case Nil
  then show ?case by simp
next
  case (Cons a as)
  then show ?case by (cases a) (simp_all add: timer_inv_call timer_inv_dispatch)
qed

lemma bind_events_frame:
  "bind_events p = Inr p' \<Longrightarrow>
   obj p' = obj p \<and> intervals p' = intervals p \<and> handle_counter p' = handle_counter p"
  by (auto simp: bind_events_def handle_touch_events_def Let_def split: option.splits if_splits)

lemma bind_events_returns:
  "track (obj p) \<noteq> None \<Longrightarrow> \<exists>p'. bind_events p = Inr p'"
  by (auto simp: bind_events_def handle_touch_events_def Let_def split: option.splits)

lemma init_returns: "\<exists>p'. init p = Inr p'"
proof (cases "track (obj p) = None \<or> total_slides (obj p) = 0")
  case True
  then show ?thesis by (simp add: init_def)
next
  case False
  then obtain p' where "bind_events p = Inr p'" using bind_events_returns by blast
  with False show ?thesis by (simp add: init_def and_then_def)
qed

lemma timer_inv_init: "timer_inv p \<Longrightarrow> timer_inv (state_of (init p))"
proof (cases "track (obj p) = None \<or> total_slides (obj p) = 0")
  case True
  assume "timer_inv p"
  with True show ?thesis by (simp add: init_def)
next
  case False
  assume inv: "timer_inv p"
  from False obtain p' where b: "bind_events p = Inr p'" using bind_events_returns by blast
  with inv have "timer_inv p'" using bind_events_frame[OF b]
    by (auto simp: timer_inv_def split: option.splits)
  then have "timer_inv (start_auto_play p')" by (rule timer_inv_start)
  with False b show ?thesis by (auto simp: init_def and_then_def)
qed

lemma timer_inv_new: "timer_inv (state_of (new_slider d c0))"
  unfolding new_slider_def by (rule timer_inv_init) (simp add: timer_inv_def)

lemma timer_inv_at_most_one: "timer_inv p \<Longrightarrow> length (intervals p) \<le> 1"
  by (auto simp: timer_inv_def split: option.splits)

text \<open>
  C5: \<open>startAutoPlay\<close> cancels the timer the slider holds before it arms a new one, so
  in every state the page reaches from the constructor, by any sequence of events and
  method calls, at most one autoplay timer is armed; and two \<open>startAutoPlay()\<close> calls
  in succession leave exactly one.
\<close>

theorem at_most_one_timer:
  "length (intervals (run as (state_of (new_slider d c0)))) \<le> 1
   \<and> timer_inv (run as (state_of (new_slider d c0)))
   \<and> set (intervals (run as (state_of (new_slider d c0))))
       \<inter> set (intervals (start_auto_play (run as (state_of (new_slider d c0))))) = {}
   \<and> length (intervals (start_auto_play (run as (state_of (new_slider d c0))))) = 1
   \<and> length (intervals (start_auto_play (start_auto_play
                (run as (state_of (new_slider d c0)))))) = 1"
proof -
  let ?p = "run as (state_of (new_slider d c0))"
  have inv: "timer_inv ?p" by (rule timer_inv_run) (rule timer_inv_new)
  have inv': "timer_inv (start_auto_play ?p)" using inv by (rule timer_inv_start)
  show ?thesis
    using inv timer_inv_at_most_one[OF inv] start_arms_one[OF inv] start_arms_one[OF inv']
    by (auto simp: timer_inv_def split: option.splits)
qed

theorem at_most_one_timer_witness:
  "length (intervals (run [Call StartAutoPlay, Call StartAutoPlay, Event MouseEnter,
                           Event MouseLeave, Event (IntervalFires 4), Call NextSlide]
                          (state_of (new_slider three_cards 0)))) \<le> 1"
  using at_most_one_timer[of "[Call StartAutoPlay, Call StartAutoPlay, Event MouseEnter,
                               Event MouseLeave, Event (IntervalFires 4), Call NextSlide]"
                             three_cards 0]
  by simp

lemma no_listener_no_handler:
  "listeners p = [] \<Longrightarrow> intervals p = [] \<Longrightarrow> handler e p = None"
  by (cases e) simp_all

lemma no_listener_run:
  "listeners p = [] \<Longrightarrow> intervals p = [] \<Longrightarrow> run (map Event evs) p = p"
  by (induction evs) (simp_all add: dispatch_def no_listener_no_handler)

lemma new_slider_no_cards:
  "doc_cards d = 0 \<Longrightarrow>
   new_slider d c0 =
     Inr \<lparr>obj = \<lparr>track = doc_track d, prev_btn = doc_prev_btn d, next_btn = doc_next_btn d,
                  dots = doc_dots d, cards = 0, current_slide = Num 0,
                  total_slides = 0, auto_play_interval = None,
                  auto_play_delay = 5000\<rparr>,
           listeners = [], touch_start_x = 0, touch_end_x = 0,
           intervals = [], handle_counter = c0\<rparr>"
  by (simp add: new_slider_def init_def)

text \<open>
  C3, as claimed, fails: on a page with a track and no cards the slide count is \<open>0\<close>, and
  a \<open>nextSlide()\<close> call evaluates \<open>1 % 0\<close> and changes the index from \<open>0\<close> to \<open>NaN\<close>.
\<close>

theorem next_slide_no_cards_counterexample:
  "total_slides no_slider = 0
   \<and> current_slide no_slider = Num 0
   \<and> current_slide (state_of (next_slide no_slider)) = NaN
   \<and> state_of (next_slide no_slider) \<noteq> no_slider"
proof -
  have "current_slide (state_of (next_slide no_slider)) = NaN"
    by (simp add: next_slide_index no_slider_eq)
  moreover have "current_slide no_slider = Num 0" "total_slides no_slider = 0"
    by (simp_all add: no_slider_eq)
  ultimately show ?thesis by auto
qed

text \<open>
  C3, amended: when the slide count is \<open>0\<close>, \<open>init()\<close> returns before it binds a listener
  or arms the autoplay timer, so no event of the page (a click on a button or a dot,
  hovering, a touch swipe, a timer firing) has a handler: every sequence of events
  leaves the state as the constructor left it, with the index \<open>0\<close>, and runs no
  navigation operation, hence no modulo by zero.
\<close>

theorem no_cards_events_ignored:
  assumes "doc_cards d = 0"
  shows "listeners (state_of (new_slider d c0)) = []
       \<and> intervals (state_of (new_slider d c0)) = []
       \<and> current_slide (obj (state_of (new_slider d c0))) = Num 0
       \<and> handler e (run (map Event evs) (state_of (new_slider d c0))) = None
       \<and> run (map Event evs) (state_of (new_slider d c0)) = state_of (new_slider d c0)"
proof -
  let ?p = "state_of (new_slider d c0)"
  have l: "listeners ?p = []" and i: "intervals ?p = []"
    and c: "current_slide (obj ?p) = Num 0"
    using assms by (simp_all add: new_slider_no_cards)
  have r: "run (map Event evs) ?p = ?p" using l i by (rule no_listener_run)
  have "handler e ?p = None" using l i by (rule no_listener_no_handler)
  with l i c r show ?thesis by simp
qed

theorem no_cards_events_ignored_witness:
  "doc_cards no_cards = 0
   \<and> handler NextClick
        (run (map Event [NextClick, TouchStart 100, TouchEnd 40, IntervalFires 1, DotClick 0])
             (state_of (new_slider no_cards 0))) = None
   \<and> run (map Event [NextClick, TouchStart 100, TouchEnd 40, IntervalFires 1, DotClick 0])
          (state_of (new_slider no_cards 0)) = state_of (new_slider no_cards 0)"
proof -
  have h: "doc_cards no_cards = 0" by (simp add: no_cards_def)
  show ?thesis
    using h no_cards_events_ignored[OF h, of 0 NextClick
            "[NextClick, TouchStart 100, TouchEnd 40, IntervalFires 1, DotClick 0]"]
    by blast
qed

section \<open>Properties of the reveal controllers\<close>

lemma update_at_length: "length (update_at t f xs) = length xs"
  by (simp add: update_at_def)

lemma update_at_nth:
  "i < length xs \<Longrightarrow> update_at t f xs ! i = (if i = t then f (xs ! i) else xs ! i)"
  by (simp add: update_at_def nth_enumerate_eq)

lemma sr_check_length: "length (sr_elements (sr_check_elements v r)) = length (sr_elements r)"
  by (simp add: sr_check_elements_def)

lemma sr_check_nth:
  "i < length (sr_elements r) \<Longrightarrow>
   sr_elements (sr_check_elements v r) ! i =
     (if v i then class_list_add ''revealed'' (sr_elements r ! i) else sr_elements r ! i)"
  by (simp add: sr_check_elements_def nth_enumerate_eq)

lemma sr_check_keeps:
  "i < length (sr_elements r) \<Longrightarrow> ''revealed'' \<in> set (sr_elements r ! i) \<Longrightarrow>
   sr_elements (sr_check_elements v r) ! i = sr_elements r ! i"
  by (simp add: sr_check_nth class_list_add_def)

lemma sr_passes_keep:
  "i < length (sr_elements r) \<Longrightarrow> ''revealed'' \<in> set (sr_elements r ! i) \<Longrightarrow>
   sr_elements (sr_passes vs r) ! i = sr_elements r ! i"
proof (induction vs arbitrary: r)
  case Nil
  then show ?case by simp
next
  case (Cons v vs)
  have "sr_elements (sr_check_elements v r) ! i = sr_elements r ! i"
    using Cons.prems by (rule sr_check_keeps)
  moreover have "i < length (sr_elements (sr_check_elements v r))"
    using Cons.prems(1) by (simp add: sr_check_length)
  ultimately show ?case using Cons.IH[of "sr_check_elements v r"] Cons.prems(2) by simp
qed

lemma sr_check_marks:
  "i < length (sr_elements r) \<Longrightarrow> v i \<Longrightarrow>
   ''revealed'' \<in> set (sr_elements (sr_check_elements v r) ! i)"
  by (simp add: sr_check_nth class_list_add_def)

lemma io_animate_idem: "io_animate_element (io_animate_element e) = io_animate_element e"
  by (simp add: io_animate_element_def)

lemma io_animate_revealed: "revealed (io_animate_element e)"
  by (simp add: io_animate_element_def revealed_def)

lemma unobserve_elements: "io_elements (unobserve t c) = io_elements c"
  by (simp add: unobserve_def split: option.split)

lemma callback_length:
  "length (io_elements (observer_callback entries c)) = length (io_elements c)"
  unfolding observer_callback_def
  by (induction entries arbitrary: c)
     (auto simp: unobserve_elements update_at_length)

lemma callback_nth:
  "i < length (io_elements c) \<Longrightarrow>
   io_elements (observer_callback entries c) ! i =
     (if (i, True) \<in> set entries then io_animate_element (io_elements c ! i)
      else io_elements c ! i)"
  unfolding observer_callback_def
proof (induction entries arbitrary: c)
  case Nil
  then show ?case by simp
next
  case (Cons x xs)
  obtain t b where x: "x = (t, b)" by (cases x)
  show ?case
  proof (cases b)
    case False
    with x Cons show ?thesis by auto
  next
    case True
    let ?c = "unobserve t (c\<lparr>io_elements := update_at t io_animate_element (io_elements c)\<rparr>)"
    have len: "i < length (io_elements ?c)"
      using Cons.prems by (simp add: unobserve_elements update_at_length)
    have nth: "io_elements ?c ! i =
                 (if i = t then io_animate_element (io_elements c ! i) else io_elements c ! i)"
      using Cons.prems by (simp add: unobserve_elements update_at_nth)
    show ?thesis
      using Cons.IH[OF len] nth x True by (auto simp: io_animate_idem)
  qed
qed

lemma callback_observer:
  "observer (observer_callback entries c) =
     map_option (filter (\<lambda>t. (t, True) \<notin> set entries)) (observer c)"
  unfolding observer_callback_def
proof (induction entries arbitrary: c)
  case Nil
  then show ?case by (cases "observer c") simp_all
next
  case (Cons x xs)
  obtain t b where x: "x = (t, b)" by (cases x)
  show ?case
  proof (cases "observer c")
    case None
    with x Cons.IH show ?thesis by (simp add: unobserve_def)
  next
    case (Some ts)
    have "filter (\<lambda>u. (u, True) \<notin> set xs) (removeAll t ts)
            = filter (\<lambda>u. u \<noteq> t \<and> (u, True) \<notin> set xs) ts"
      by (induction ts) auto
    with x Some Cons.IH show ?thesis
      by (auto simp: unobserve_def intro: filter_cong)
  qed
qed

lemma callback_keeps:
  assumes "i < length (io_elements c)"
    and "io_animate_element (io_elements c ! i) = io_elements c ! i"
  shows "io_elements (observer_callback entries c) ! i = io_elements c ! i"
  using assms by (simp add: callback_nth)

lemma callbacks_keep:
  "i < length (io_elements c) \<Longrightarrow>
   io_animate_element (io_elements c ! i) = io_elements c ! i \<Longrightarrow>
   io_elements (observer_callbacks batches c) ! i = io_elements c ! i"
proof (induction batches arbitrary: c)
  case Nil
  then show ?case by simp
next
  case (Cons entries rest)
  have k: "io_elements (observer_callback entries c) ! i = io_elements c ! i"
    using Cons.prems by (rule callback_keeps)
  have l: "i < length (io_elements (observer_callback entries c))"
    using Cons.prems(1) by (simp add: callback_length)
  show ?case using Cons.IH[OF l] k Cons.prems(2) by simp
qed

text \<open>
  C6: the reveal of a one-shot element is monotonic. In \<open>ScrollReveal\<close>, once a pass has
  found the element in the viewport it carries the class \<open>revealed\<close>, and every later
  pass leaves its class list as it is. In \<open>IntersectionAnimationController\<close>, once the
  callback has seen an intersecting entry for the element it is revealed and no longer
  observed, and every later callback leaves its styles as they are.
\<close>

theorem reveal_is_monotonic:
  "(i < length (sr_elements r) \<and> v i \<longrightarrow>
      ''revealed'' \<in> set (sr_elements (sr_check_elements v r) ! i)
      \<and> ''revealed'' \<in> set (sr_elements (sr_passes vs (sr_check_elements v r)) ! i)
      \<and> sr_elements (sr_passes vs (sr_check_elements v r)) ! i
          = sr_elements (sr_check_elements v r) ! i)
   \<and> (j < length (io_elements c) \<and> (j, True) \<in> set entries \<longrightarrow>
      revealed (io_elements (observer_callback entries c) ! j)
      \<and> (case observer (observer_callback entries c) of
            None \<Rightarrow> True | Some targets \<Rightarrow> j \<notin> set targets)
      \<and> revealed (io_elements (observer_callbacks batches (observer_callback entries c)) ! j)
      \<and> io_elements (observer_callbacks batches (observer_callback entries c)) ! j
          = io_elements (observer_callback entries c) ! j)"
proof (intro conjI impI)
  assume a: "i < length (sr_elements r) \<and> v i"
  then have l: "i < length (sr_elements (sr_check_elements v r))"
    by (simp add: sr_check_length)
  show m: "''revealed'' \<in> set (sr_elements (sr_check_elements v r) ! i)"
    using a by (simp add: sr_check_marks)
  show k: "sr_elements (sr_passes vs (sr_check_elements v r)) ! i
          = sr_elements (sr_check_elements v r) ! i"
    using l m by (rule sr_passes_keep)
  show "''revealed'' \<in> set (sr_elements (sr_passes vs (sr_check_elements v r)) ! i)"
    using k m by simp
next
  assume a: "j < length (io_elements c) \<and> (j, True) \<in> set entries"
  let ?c = "observer_callback entries c"
  have n: "io_elements ?c ! j = io_animate_element (io_elements c ! j)"
    using a by (simp add: callback_nth)
  show r: "revealed (io_elements ?c ! j)"
    by (simp add: n io_animate_revealed)
  show "case observer ?c of None \<Rightarrow> True | Some targets \<Rightarrow> j \<notin> set targets"
    using a by (cases "observer c") (simp_all add: callback_observer)
  have l: "j < length (io_elements ?c)" using a by (simp add: callback_length)
  have f: "io_animate_element (io_elements ?c ! j) = io_elements ?c ! j"
    by (simp add: n io_animate_idem)
  show k: "io_elements (observer_callbacks batches ?c) ! j = io_elements ?c ! j"
    using l f by (rule callbacks_keep)
  show "revealed (io_elements (observer_callbacks batches ?c) ! j)"
    using k r by simp
qed

lemma one_reveal_eq:
  "one_reveal = \<lparr>sr_elements = [[''reveal'']], sr_threshold = round_to_double (1 / 10)\<rparr>"
  by (simp add: one_reveal_def new_scroll_reveal_def sr_check_elements_def none_visible_def)

lemma observed_card_eq:
  "observed_card =
     \<lparr>io_elements = [hidden_card], observer = Some [0], io_timeouts = []\<rparr>"
  by (simp add: observed_card_def new_io_controller_def io_init_def create_observer_def
      observe_elements_def hide_def plain_card_def hidden_card_def upt_rec)

theorem reveal_is_monotonic_witness:
  "(0 < length (sr_elements one_reveal) \<and> all_visible 0)
   \<and> ''revealed'' \<in> set (sr_elements (sr_check_elements all_visible one_reveal) ! 0)
   \<and> sr_elements (sr_passes [none_visible, all_visible]
                     (sr_check_elements all_visible one_reveal)) ! 0
        = sr_elements (sr_check_elements all_visible one_reveal) ! 0
   \<and> (0 < length (io_elements observed_card) \<and> (0, True) \<in> set [(0 :: nat, True)])
   \<and> revealed (io_elements (observer_callback [(0, True)] observed_card) ! 0)
   \<and> io_elements (observer_callbacks [[(0, False)], [(0, True)]]
                     (observer_callback [(0, True)] observed_card)) ! 0
        = io_elements (observer_callback [(0, True)] observed_card) ! 0"
proof -
  have h1: "0 < length (sr_elements one_reveal) \<and> all_visible 0"
    by (simp add: one_reveal_eq all_visible_def)
  have h2: "0 < length (io_elements observed_card) \<and> (0, True) \<in> set [(0 :: nat, True)]"
    by (simp add: observed_card_eq)
  show ?thesis
    using h1 h2
      reveal_is_monotonic[of 0 one_reveal all_visible "[none_visible, all_visible]"
        0 observed_card "[(0, True)]" "[[(0, False)], [(0, True)]]"]
    by blast
qed

section \<open>Properties of the double arithmetic\<close>

text \<open>
  \<open>ilog2\<close> is the binary exponent, \<open>round_half_even\<close> rounds to a nearest integer and
  to the even one on a tie, and \<open>round_to_double\<close> gives a number with a significand of
  at most 53 bits that is within half a unit in the last place of its argument.
\<close>

lemma ilog2_bounds:
  assumes "0 < x"
  shows "pow2 (ilog2 x) \<le> x \<and> x < pow2 (ilog2 x + 1)"
proof (cases "1 \<le> x")
  case True
  let ?n = "\<lfloor>x\<rfloor>"
  let ?k = "bitlen ?n"
  from True have n: "0 < ?n" by simp
  from bitlen_bounds[OF n] have lo: "2 ^ nat (?k - 1) \<le> ?n" and hi: "?n < 2 ^ nat ?k"
    by simp_all
  from n have k: "1 \<le> ?k" by (simp add: bitlen_alt_def)
  have "(of_int (2 ^ nat (?k - 1)) :: rat) \<le> of_int ?n" using lo by (simp only: of_int_le_iff)
  also have "\<dots> \<le> x" by simp
  finally have a: "(2 :: rat) ^ nat (?k - 1) \<le> x" by simp
  have "?n + 1 \<le> 2 ^ nat ?k" using hi by simp
  then have "(of_int (?n + 1) :: rat) \<le> of_int (2 ^ nat ?k)" by (simp only: of_int_le_iff)
  moreover have "x < of_int (?n + 1)" by linarith
  ultimately have b: "x < (2 :: rat) ^ nat ?k" by simp
  from True k a b show ?thesis by (simp add: ilog2_def pow2_def)
next
  case False
  let ?m = "\<lceil>1 / x\<rceil>"
  let ?k = "bitlen (?m - 1)"
  from False assms have y: "1 < 1 / x" by simp
  then have m: "0 < ?m - 1" by linarith
  from bitlen_bounds[OF m] have lo: "2 ^ nat (?k - 1) \<le> ?m - 1" and hi: "?m - 1 < 2 ^ nat ?k"
    by simp_all
  from m have k: "1 \<le> ?k" by (simp add: bitlen_alt_def)
  have "?m \<le> 2 ^ nat ?k" using hi by simp
  then have "(of_int ?m :: rat) \<le> of_int (2 ^ nat ?k)" by (simp only: of_int_le_iff)
  then have mk: "(of_int ?m :: rat) \<le> 2 ^ nat ?k" by simp
  have "1 / x \<le> of_int ?m" by (rule le_of_int_ceiling)
  from this mk have "1 / x \<le> (2 :: rat) ^ nat ?k" by (rule order_trans)
  then have a: "1 / 2 ^ nat ?k \<le> x" using assms by (simp add: field_simps)
  have "(of_int (2 ^ nat (?k - 1)) :: rat) \<le> of_int (?m - 1)" using lo by (simp only: of_int_le_iff)
  moreover have "of_int (?m - 1) < 1 / x" by linarith
  ultimately have "(2 :: rat) ^ nat (?k - 1) < 1 / x" by simp
  then have b: "x < 1 / 2 ^ nat (?k - 1)" using assms by (simp add: field_simps)
  have c: "nat (- (1 - ?k)) = nat (?k - 1)" by simp
  show ?thesis
  proof (cases "?k = 1")
    case True
    with False a b show ?thesis by (simp add: ilog2_def pow2_def)
  next
    case k1: False
    with k have "1 < ?k" by simp
    with False a b show ?thesis by (simp add: ilog2_def pow2_def c)
  qed
qed


lemma pow2_powi: "pow2 k = 2 powi k"
  by (auto simp: pow2_def power_int_def inverse_eq_divide power_divide)

lemma pow2_pos: "0 < pow2 k"
  by (simp add: pow2_def)

lemma pow2_mono: "a \<le> b \<Longrightarrow> pow2 a \<le> pow2 b"
  by (simp add: pow2_powi power_int_increasing)

lemma pow2_diff: "pow2 a / pow2 b = pow2 (a - b)"
  by (simp add: pow2_powi power_int_diff)

lemma round_half_even_nearest: "\<bar>of_int (round_half_even m) - m\<bar> \<le> 1 / 2"
proof -
  have "of_int \<lfloor>m\<rfloor> \<le> m" "m < of_int \<lfloor>m\<rfloor> + 1" by linarith+
  then show ?thesis by (auto simp: round_half_even_def Let_def)
qed

lemma round_half_even_tie:
  "m - of_int \<lfloor>m\<rfloor> = 1 / 2 \<Longrightarrow> even (round_half_even m)"
  by (simp add: round_half_even_def Let_def)

lemma round_half_even_bounds:
  assumes "of_int a \<le> m" "m \<le> of_int b"
  shows "a \<le> round_half_even m \<and> round_half_even m \<le> b"
proof -
  have f: "a \<le> \<lfloor>m\<rfloor>" using assms(1) by (simp add: le_floor_iff)
  have "\<lfloor>m\<rfloor> \<le> b" using assms(2) by linarith
  moreover have "m - of_int \<lfloor>m\<rfloor> \<noteq> 0 \<Longrightarrow> \<lfloor>m\<rfloor> + 1 \<le> b"
  proof -
    assume "m - of_int \<lfloor>m\<rfloor> \<noteq> 0"
    then have "of_int \<lfloor>m\<rfloor> < m" by linarith
    with assms(2) have "of_int \<lfloor>m\<rfloor> < (of_int b :: rat)" by linarith
    then show ?thesis by simp
  qed
  ultimately show ?thesis using f
    by (auto simp: round_half_even_def Let_def)
qed


lemma round_to_double_nearest:
  assumes "x \<noteq> 0"
  shows "round_to_double x
           = sgn x * of_int (round_half_even (\<bar>x\<bar> / pow2 (max (ilog2 \<bar>x\<bar> - 52) (- 1074))))
               * pow2 (max (ilog2 \<bar>x\<bar> - 52) (- 1074))"
    and "0 \<le> round_half_even (\<bar>x\<bar> / pow2 (max (ilog2 \<bar>x\<bar> - 52) (- 1074)))"
    and "round_half_even (\<bar>x\<bar> / pow2 (max (ilog2 \<bar>x\<bar> - 52) (- 1074))) \<le> 2 ^ 53"
    and "\<bar>round_to_double x - x\<bar> \<le> pow2 (max (ilog2 \<bar>x\<bar> - 52) (- 1074)) / 2"
proof -
  let ?e = "ilog2 \<bar>x\<bar>"
  let ?q = "max (?e - 52) (- 1074)"
  let ?m = "\<bar>x\<bar> / pow2 ?q"
  let ?n = "round_half_even ?m"
  from assms have pos: "0 < \<bar>x\<bar>" by simp
  have q: "0 < pow2 ?q" by (rule pow2_pos)
  show r: "round_to_double x = sgn x * of_int ?n * pow2 ?q"
    using assms by (simp add: round_to_double_def Let_def)
  have m0: "of_int 0 \<le> ?m" using pos q by simp
  have "pow2 (?e - 52) \<le> pow2 ?q" by (rule pow2_mono) simp
  then have "?m \<le> \<bar>x\<bar> / pow2 (?e - 52)"
    using pos pow2_pos[of "?e - 52"] by (simp add: frac_le)
  also have "\<dots> \<le> pow2 (?e + 1) / pow2 (?e - 52)"
    using ilog2_bounds[OF pos] pow2_pos[of "?e - 52"] by (simp add: divide_right_mono)
  also have "\<dots> = pow2 53" by (simp add: pow2_diff)
  also have "\<dots> = of_int (2 ^ 53)" by (simp add: pow2_def)
  finally have m1: "?m \<le> of_int (2 ^ 53)" .
  from round_half_even_bounds[OF m0 m1]
  show "0 \<le> ?n" and "?n \<le> 2 ^ 53" by simp_all
  have "round_to_double x - x = sgn x * (of_int ?n * pow2 ?q - \<bar>x\<bar>)"
    using abs_mult_sgn[of x] by (simp add: r algebra_simps)
  also have "of_int ?n * pow2 ?q - \<bar>x\<bar> = pow2 ?q * (of_int ?n - ?m)"
    using q by (simp add: algebra_simps)
  finally have "\<bar>round_to_double x - x\<bar> = pow2 ?q * \<bar>of_int ?n - ?m\<bar>"
    using assms q by (simp add: abs_mult)
  also have "\<dots> \<le> pow2 ?q * (1 / 2)"
    using q round_half_even_nearest[of ?m] by (intro mult_left_mono) simp_all
  finally show "\<bar>round_to_double x - x\<bar> \<le> pow2 ?q / 2" by simp
qed

text \<open>The doubles of the literal \<open>0.1\<close> and of \<open>1 - 0.1\<close>.\<close>

lemma double_tenth: "round_to_double (1 / 10) = 3602879701896397 / 36028797018963968"
  by code_simp

lemma double_nine_tenths:
  "double_sub 1 (round_to_double (1 / 10)) = 8106479329266893 / 9007199254740992"
  by code_simp

section \<open>Properties of the scroll animation pass and of the fallback\<close>

lemma is_in_viewport_timeouts [simp]:
  "is_in_viewport (c\<lparr>sa_timeouts := ts\<rparr>) w t = is_in_viewport c w t"
  by (simp add: is_in_viewport_def)

lemma sa_fold:
  "fold (\<lambda>(index, element) c'.
           if is_in_viewport c' w (tops index) then animate_element index element c' else c')
        xs c
   = c\<lparr>sa_timeouts :=
         sa_timeouts c @
         map (\<lambda>(index, element).
                ((case data_aos_delay element of None \<Rightarrow> 0 | Some d \<Rightarrow> d), index))
             (filter (\<lambda>(index, element). is_in_viewport c w (tops index)) xs)\<rparr>"
proof (induction xs arbitrary: c)
  case Nil
  then show ?case by simp
next
  case (Cons x xs)
  obtain index element where x: "x = (index, element)" by (cases x)
  show ?case
  proof (cases "is_in_viewport c w (tops index)")
    case True
    then show ?thesis
      using Cons.IH[of "animate_element index element c"] x
      by (simp add: animate_element_def)
  next
    case False
    then show ?thesis using Cons.IH[of c] x by simp
  qed
qed

lemma triggered_eq:
  "triggered w tops c =
     map fst (filter (\<lambda>(index, element). is_in_viewport c w (tops index))
                     (enumerate 0 (sa_elements c)))"
proof -
  have "sa_timeouts (sa_check_elements w tops c) =
          sa_timeouts c @
          map (\<lambda>(index, element).
                 ((case data_aos_delay element of None \<Rightarrow> 0 | Some d \<Rightarrow> d), index))
              (filter (\<lambda>(index, element). is_in_viewport c w (tops index))
                      (enumerate 0 (sa_elements c)))"
    by (simp only: sa_check_elements_def sa_fold) simp
  then show ?thesis
    by (simp add: triggered_def comp_def case_prod_unfold)
qed

lemma triggered_set:
  "i \<in> set (triggered w tops c) \<longleftrightarrow>
     i < length (sa_elements c) \<and> 0 \<le> tops i
     \<and> tops i \<le> double_mul (window_height w) (double_sub 1 (sa_threshold c))"
proof -
  have "i \<in> set (triggered w tops c) \<longleftrightarrow>
          (\<exists>e. (i, e) \<in> set (enumerate 0 (sa_elements c)) \<and> is_in_viewport c w (tops i))"
    by (force simp: triggered_eq)
  also have "\<dots> \<longleftrightarrow> i < length (sa_elements c) \<and> is_in_viewport c w (tops i)"
    by (auto simp: in_set_enumerate_eq)
  finally show ?thesis by (simp add: is_in_viewport_def)
qed

lemma sa_check_frame:
  "sa_elements (sa_check_elements w tops c) = sa_elements c"
  "sa_threshold (sa_check_elements w tops c) = sa_threshold c"
  by (simp_all only: sa_check_elements_def sa_fold) simp_all

lemma one_fade_up_fields:
  "sa_elements one_fade_up = [fade_up]"
  "sa_threshold one_fade_up = round_to_double (1 / 10)"
  by (simp_all add: one_fade_up_def new_scroll_animation_def sa_check_frame)

text \<open>
  The bound in double arithmetic for two window heights: \<open>1000 * (1 - 0.1)\<close> is exactly
  \<open>900\<close>, and \<open>768 * (1 - 0.1)\<close> is the double nearest to \<open>691.2\<close>, which lies above
  \<open>691.2\<close>.
\<close>

lemma bound_1000: "double_mul 1000 (double_sub 1 (round_to_double (1 / 10))) = 900"
  by code_simp

lemma bound_768:
  "double_mul 768 (double_sub 1 (round_to_double (1 / 10)))
     = 3039929748475085 / 4398046511104"
  by code_simp

lemma double_691_2_eq: "double_691_2 = 3039929748475085 / 4398046511104"
  unfolding double_691_2_def by code_simp

text \<open>
  C7, as claimed, fails: in a window \<open>768\<close> pixels high an element whose top is at the
  double nearest to \<open>691.2\<close> is triggered. Its top is not strictly less than
  \<open>768 * (1 - 0.1)\<close>, neither with the product taken exactly, which it exceeds, nor with
  the product as the code computes it, which it equals.
\<close>

theorem trigger_on_bound_counterexample:
  "0 \<in> set (triggered short_window (tops_at double_691_2) one_fade_up)
   \<and> \<not> (double_691_2 < window_height short_window * (1 - 1 / 10))
   \<and> \<not> (double_691_2 < double_mul (window_height short_window)
                                     (double_sub 1 (sa_threshold one_fade_up)))"
  by (simp add: triggered_set one_fade_up_fields window_height_def short_window_def
      tops_at_def bound_768 double_691_2_eq)

text \<open>
  C7, amended: a pass of \<open>checkElements\<close> triggers the animation of a watched element
  exactly when the top of the element is \<open>\<ge> 0\<close> and less than or equal to the viewport
  height times \<open>1 - threshold\<close>, the bound taken as the code computes it in double
  arithmetic (the difference and the product each rounded to the nearest double); elements
  that fail either bound are not triggered.
\<close>

theorem trigger_iff_in_viewport:
  "i \<in> set (triggered w tops c) \<longleftrightarrow>
     i < length (sa_elements c) \<and> 0 \<le> tops i
     \<and> tops i \<le> double_mul (window_height w) (double_sub 1 (sa_threshold c))"
  by (rule triggered_set)

theorem trigger_iff_in_viewport_witness:
  "0 \<in> set (triggered tall_window (tops_at 500) one_fade_up)
   \<and> 0 \<in> set (triggered tall_window (tops_at 900) one_fade_up)
   \<and> 0 \<notin> set (triggered tall_window (tops_at 901) one_fade_up)
   \<and> 0 \<notin> set (triggered tall_window (tops_at (- 1)) one_fade_up)
   \<and> 0 \<in> set (triggered short_window (tops_at double_691_2) one_fade_up)"
  using trigger_iff_in_viewport[of 0 tall_window "tops_at 500" one_fade_up]
    trigger_iff_in_viewport[of 0 tall_window "tops_at 900" one_fade_up]
    trigger_iff_in_viewport[of 0 tall_window "tops_at 901" one_fade_up]
    trigger_iff_in_viewport[of 0 tall_window "tops_at (- 1)" one_fade_up]
    trigger_iff_in_viewport[of 0 short_window "tops_at double_691_2" one_fade_up]
  by (simp add: one_fade_up_fields window_height_def tall_window_def short_window_def
      tops_at_def bound_1000 bound_768 double_691_2_eq)

lemma fallback_fold_length:
  "length (io_elements (fold (\<lambda>(delay, index). fallback_callback index) ds c))
     = length (io_elements c)"
  by (induction ds arbitrary: c) (auto simp: fallback_callback_def update_at_length)

lemma fallback_fold_nth:
  "i < length (io_elements c) \<Longrightarrow>
   io_elements (fold (\<lambda>(delay, index). fallback_callback index) ds c) ! i =
     (if i \<in> snd ` set ds
      then (io_elements c ! i)\<lparr>opacity := ''1'', transform_style := ''translateY(0)''\<rparr>
      else io_elements c ! i)"
proof (induction ds arbitrary: c)
  case Nil
  then show ?case by simp
next
  case (Cons x ds)
  obtain d k where x: "x = (d, k)" by (cases x)
  have len: "i < length (io_elements (fallback_callback k c))"
    using Cons.prems by (simp add: fallback_callback_def update_at_length)
  have nth: "io_elements (fallback_callback k c) ! i =
               (if i = k
                then (io_elements c ! i)\<lparr>opacity := ''1'', transform_style := ''translateY(0)''\<rparr>
                else io_elements c ! i)"
    using Cons.prems by (simp add: fallback_callback_def update_at_nth)
  show ?case using Cons.IH[OF len] nth x by auto
qed

lemma elapse_nth:
  "i < length (io_elements c) \<Longrightarrow>
   io_elements (elapse t c) ! i =
     (if \<exists>d. (d, i) \<in> set (io_timeouts c) \<and> d \<le> t
      then (io_elements c ! i)\<lparr>opacity := ''1'', transform_style := ''translateY(0)''\<rparr>
      else io_elements c ! i)"
proof -
  let ?due = "filter (\<lambda>(delay, index). delay \<le> t) (sort_key fst (io_timeouts c))"
  let ?c = "c\<lparr>io_timeouts := filter (\<lambda>(delay, index). \<not> delay \<le> t) (io_timeouts c)\<rparr>"
  assume "i < length (io_elements c)"
  then have "i < length (io_elements ?c)" by simp
  then have F: "io_elements (fold (\<lambda>(delay, index). fallback_callback index) ?due ?c) ! i =
     (if i \<in> snd ` set ?due
      then (io_elements ?c ! i)\<lparr>opacity := ''1'', transform_style := ''translateY(0)''\<rparr>
      else io_elements ?c ! i)"
    by (rule fallback_fold_nth)
  have mem: "(i \<in> snd ` set ?due) = (\<exists>d. (d, i) \<in> set (io_timeouts c) \<and> d \<le> t)"
    by force
  have els: "io_elements ?c = io_elements c" by simp
  have eq: "elapse t c = fold (\<lambda>(delay, index). fallback_callback index) ?due ?c"
    by (simp add: elapse_def Let_def)
  show ?thesis by (simp only: eq F mem els)
qed

lemma new_fallback:
  "new_io_controller False els =
     Inr \<lparr>io_elements = els, observer = None,
          io_timeouts = map (\<lambda>index. (index * 200, index)) [0..<length els]\<rparr>"
  by (simp add: new_io_controller_def io_init_def fallback_animation_def)

text \<open>
  C8: without \<open>IntersectionObserver\<close> in the window, the controller sets one timeout for
  every element the selector finds, whatever its position, with the delay \<open>200\<close>
  milliseconds times the position of the element in document order: the delays increase
  strictly, each \<open>200\<close> more than the one before; an element is as it was before its
  delay has passed and revealed from then on, so in the end all elements are revealed.
\<close>

theorem fallback_staggered:
  "new_io_controller False els = Inr (state_of (new_io_controller False els))
   \<and> io_elements (state_of (new_io_controller False els)) = els
   \<and> io_timeouts (state_of (new_io_controller False els))
       = map (\<lambda>index. (index * 200, index)) [0..<length els]
   \<and> (i < length els \<longrightarrow>
        (t < i * 200 \<longrightarrow>
           io_elements (elapse t (state_of (new_io_controller False els))) ! i = els ! i)
        \<and> (i * 200 \<le> t \<longrightarrow>
           revealed (io_elements (elapse t (state_of (new_io_controller False els))) ! i)))
   \<and> (Suc i < length els \<longrightarrow>
        fst (io_timeouts (state_of (new_io_controller False els)) ! Suc i)
          = fst (io_timeouts (state_of (new_io_controller False els)) ! i) + 200)
   \<and> list_all revealed
        (io_elements (elapse (200 * length els) (state_of (new_io_controller False els))))"
proof -
  let ?c = "state_of (new_io_controller False els)"
  have c: "?c = \<lparr>io_elements = els, observer = None,
                  io_timeouts = map (\<lambda>index. (index * 200, index)) [0..<length els]\<rparr>"
    by (simp add: new_fallback)
  have due: "(\<exists>d. (d, k) \<in> set (io_timeouts ?c) \<and> d \<le> u) \<longleftrightarrow> k < length els \<and> k * 200 \<le> u"
    for k u by (force simp: c)
  have nth: "io_elements (elapse u ?c) ! k =
               (if k * 200 \<le> u
                then (els ! k)\<lparr>opacity := ''1'', transform_style := ''translateY(0)''\<rparr>
                else els ! k)" if "k < length els" for k u
  proof -
    have "k < length (io_elements ?c)" using that by (simp add: c)
    from elapse_nth[OF this, of u] due[of k u] that show ?thesis by (simp add: c)
  qed
  have len: "length (io_elements (elapse u ?c)) = length els" for u
    by (simp add: elapse_def Let_def fallback_fold_length c)
  have all: "list_all revealed (io_elements (elapse (200 * length els) ?c))"
    unfolding list_all_length
  proof (intro allI impI)
    fix k assume "k < length (io_elements (elapse (200 * length els) ?c))"
    then have k: "k < length els" by (simp only: len)
    then have "k * 200 \<le> 200 * length els" by simp
    with nth[OF k, of "200 * length els"]
    show "revealed (io_elements (elapse (200 * length els) ?c) ! k)"
      by (simp add: revealed_def)
  qed
  have a: "new_io_controller False els = Inr ?c" by (simp add: new_fallback)
  have b: "io_elements ?c = els" by (simp add: c)
  have d: "io_timeouts ?c = map (\<lambda>index. (index * 200, index)) [0..<length els]"
    by (simp add: c)
  have e: "i < length els \<longrightarrow>
        (t < i * 200 \<longrightarrow> io_elements (elapse t ?c) ! i = els ! i)
        \<and> (i * 200 \<le> t \<longrightarrow> revealed (io_elements (elapse t ?c) ! i))"
    using nth[of i t] by (simp add: revealed_def)
  have f: "Suc i < length els \<longrightarrow>
        fst (io_timeouts ?c ! Suc i) = fst (io_timeouts ?c ! i) + 200"
    by (simp add: d)
  from a b d e f all show ?thesis by (intro conjI)
qed

theorem fallback_staggered_witness:
  "(1 < length [plain_card, plain_card, plain_card] \<and> (1 :: nat) * 200 \<le> 250)
   \<and> revealed (io_elements (elapse 250
        (state_of (new_io_controller False [plain_card, plain_card, plain_card]))) ! 1)
   \<and> (2 < length [plain_card, plain_card, plain_card] \<and> (250 :: nat) < 2 * 200)
   \<and> io_elements (elapse 250
        (state_of (new_io_controller False [plain_card, plain_card, plain_card]))) ! 2
       = [plain_card, plain_card, plain_card] ! 2
   \<and> Suc 1 < length [plain_card, plain_card, plain_card]
   \<and> fst (io_timeouts
        (state_of (new_io_controller False [plain_card, plain_card, plain_card])) ! Suc 1)
       = fst (io_timeouts
        (state_of (new_io_controller False [plain_card, plain_card, plain_card])) ! 1) + 200"
proof -
  have h1: "1 < length [plain_card, plain_card, plain_card] \<and> (1 :: nat) * 200 \<le> 250"
    by simp
  have h2: "2 < length [plain_card, plain_card, plain_card] \<and> (250 :: nat) < 2 * 200"
    by simp
  have h3: "Suc 1 < length [plain_card, plain_card, plain_card]" by simp
  show ?thesis
    using h1 h2 h3
      fallback_staggered[of "[plain_card, plain_card, plain_card]" 1 250]
      fallback_staggered[of "[plain_card, plain_card, plain_card]" 2 250]
    by (simp del: One_nat_def)
qed

end
